theory Spec2Isabelle
  imports Main "HOL-Library.Word"
begin

section \<open>The middleware chain of cppmiddleware.hpp\<close>

text \<open>
  The header declares two plain structs, \<open>Request\<close> and \<open>Response\<close>, two function
  types, \<open>Next\<close> and \<open>MiddlewareFunc\<close>, and the class \<open>MiddlewareChain\<close> with the
  operations \<open>use\<close>, \<open>handle\<close> and the private recursion \<open>execute\<close>.
  This theory embeds them and proves the properties the chain is specified to have.
\<close>

subsection \<open>Request and Response\<close>

text \<open>
  The structs become records with the fields of the source. An
  \<open>unordered_map<string, string>\<close> is a partial map, the C++ \<open>int\<close> of the status a
  32-bit word read through \<open>sint\<close>.
\<close>

record Request =
  "method" :: string
  path :: string
  headers :: "string \<rightharpoonup> string"
  body :: string

record Response =
  status :: "32 word"
  headers :: "string \<rightharpoonup> string"
  body :: string

text \<open>The default member initialisers: what a freshly constructed object holds.\<close>

definition new_Request :: Request where
  "new_Request =
     \<lparr>method = ''GET'', path = ''/'', Request.headers = Map.empty, Request.body = ''''\<rparr>"

definition new_Response :: Response where
  "new_Response = \<lparr>status = 200, headers = Map.empty, body = ''''\<rparr>"

text \<open>
  One dispatch works on one request and one response, both passed by reference to every
  handler, and on whatever else the handlers reach: what they capture by reference (a
  log, a counter) and what the function objects hold by value in the copies that \<open>use\<close>
  stores in the vector, which the call in \<open>execute\<close> changes in place. The three
  together are the state a dispatch threads through. \<open>ext\<close> is the part the chain never
  looks at; it lives as long as the chain and the captured objects do, so it is still
  there when the next dispatch starts, while request and response are the caller's.
\<close>

record 'e world =
  req :: Request
  res :: Response
  ext :: 'e

definition fresh :: "'e \<Rightarrow> 'e world" where
  "fresh e = \<lparr>req = new_Request, res = new_Response, ext = e\<rparr>"

subsection \<open>Handlers and continuations\<close>

text \<open>
  A \<open>MiddlewareFunc\<close> is arbitrary code that is handed the two references and a
  continuation \<open>Next\<close>. All it can do with the chain is to call that continuation, any
  number of times, between stretches of work of its own on the shared state. Its
  behaviour on a given state is therefore a tree: it either returns, leaving a state,
  or it calls the continuation in some state and goes on, from the state the
  continuation left, with the rest of its body. Work before the call is in the state
  passed to \<open>CallNext\<close>, work after it in the function that follows.

  The tree is well founded, so a handler described by it calls its continuation
  finitely often on every run, and it returns normally. Handlers that throw (the empty
  \<open>std::function\<close> among them), that do not return, that keep the continuation for use
  outside their own activation, or that register middleware while a dispatch is running
  are outside this description.

  The type \<open>'w\<close> of the shared state is left open: it is \<open>'e world\<close> for the handlers
  of the source, and a pair of a state and a log where handlers are observed.
\<close>

datatype 'w action = Return 'w | CallNext 'w "'w \<Rightarrow> 'w action"

type_synonym 'w MiddlewareFunc = "'w \<Rightarrow> 'w action"

text \<open>
  The only operation of the source that is undefined on some input is the unchecked
  \<open>middleware_[index]\<close>; it is \<open>IndexOutOfRange\<close> here. \<open>DepthExceeded\<close> belongs to
  the depth-bounded variant of \<open>execute\<close> below.
\<close>

datatype fault = IndexOutOfRange | DepthExceeded

type_synonym 'w Next = "'w \<Rightarrow> fault + 'w"

text \<open>
  Running a handler's behaviour against the continuation it was given. The call of the
  continuation is synchronous: the rest of the handler runs on the state the
  continuation returns.
\<close>

primrec invoke :: "'w action \<Rightarrow> 'w Next \<Rightarrow> fault + 'w" where
  "invoke (Return w) next = Inr w"
| "invoke (CallNext w k) next =
     (case next w of Inl e \<Rightarrow> Inl e | Inr w' \<Rightarrow> invoke (k w') next)"

subsection \<open>MiddlewareChain\<close>

text \<open>
  The class has the single member \<open>middleware_\<close> (a name ending in an underscore is
  not available here, so the field is \<open>middleware\<close>). A default-constructed chain holds
  the empty vector.
\<close>

record 'w MiddlewareChain =
  middleware :: "'w MiddlewareFunc list"

definition new_MiddlewareChain :: "'w MiddlewareChain" where
  "new_MiddlewareChain = \<lparr>middleware = []\<rparr>"

text \<open>\<open>operator[]\<close> of the vector: defined inside the range only.\<close>

definition subscript :: "'a list \<Rightarrow> nat \<Rightarrow> 'a option" where
  "subscript v i = (if i < length v then Some (v ! i) else None)"

text \<open>\<open>use\<close> is \<open>push_back\<close> on the member.\<close>

definition use :: "'w MiddlewareChain \<Rightarrow> 'w MiddlewareFunc \<Rightarrow> 'w MiddlewareChain" where
  "use c func = c\<lparr>middleware := middleware c @ [func]\<rparr>"

text \<open>
  \<open>execute\<close>: the guard, then the handler at \<open>index\<close> run against the closure
  \<open>next\<close>, which is \<open>execute\<close> at \<open>index + 1\<close> on the same request and response.
  Neither \<open>execute\<close> nor \<open>handle\<close> assigns to a member, so the chain is an argument
  and not a result; what the call of a stored function object changes in that object
  is part of the threaded state (its \<open>ext\<close>). The index is a \<open>size_t\<close>; \<open>index + 1\<close> is computed only below the
  guard, where \<open>index\<close> is less than the size of a vector, so it does not wrap and a
  natural number stands for it.
\<close>

function execute :: "'w MiddlewareChain \<Rightarrow> nat \<Rightarrow> 'w \<Rightarrow> fault + 'w" where
  "execute c index w =
     (if index \<ge> length (middleware c) then Inr w
      else case subscript (middleware c) index of
             None \<Rightarrow> Inl IndexOutOfRange
           | Some f \<Rightarrow> invoke (f w) (execute c (index + 1)))"
  by pat_completeness auto
termination
  by (relation "measure (\<lambda>(c, index, w). length (middleware c) - index)") auto

declare execute.simps [simp del]

definition handle :: "'w MiddlewareChain \<Rightarrow> 'w \<Rightarrow> fault + 'w" where
  "handle c w = execute c 0 w"

text \<open>
  The same recursion with a bound on the number of nested activations of \<open>execute\<close>:
  with no activation left the result is \<open>DepthExceeded\<close>. It serves to state how deep
  the recursion goes.
\<close>

primrec execute_bounded :: "nat \<Rightarrow> 'w MiddlewareChain \<Rightarrow> nat \<Rightarrow> 'w \<Rightarrow> fault + 'w" where
  "execute_bounded 0 c index w = Inl DepthExceeded"
| "execute_bounded (Suc d) c index w =
     (if index \<ge> length (middleware c) then Inr w
      else case subscript (middleware c) index of
             None \<Rightarrow> Inl IndexOutOfRange
           | Some f \<Rightarrow> invoke (f w) (execute_bounded d c (index + 1)))"

subsection \<open>Observing a dispatch\<close>

text \<open>
  Which handlers run, and in which order, is read from an observation log: a list of
  indices carried beside the state, to which the handler registered at position \<open>i\<close>
  appends \<open>i\<close> when it is entered. The handler itself neither reads nor writes the log:
  \<open>with_log\<close> carries it through the handler's behaviour unchanged.
\<close>

primrec with_log :: "'w action \<Rightarrow> nat list \<Rightarrow> ('w \<times> nat list) action" where
  "with_log (Return w) l = Return (w, l)"
| "with_log (CallNext w k) l = CallNext (w, l) (\<lambda>p. with_log (k (fst p)) (snd p))"

definition observed :: "nat \<Rightarrow> 'w MiddlewareFunc \<Rightarrow> ('w \<times> nat list) MiddlewareFunc" where
  "observed i f = (\<lambda>p. with_log (f (fst p)) (snd p @ [i]))"

definition observe :: "'w MiddlewareChain \<Rightarrow> ('w \<times> nat list) MiddlewareChain" where
  "observe c = \<lparr>middleware = map (\<lambda>(i, f). observed i f) (enumerate 0 (middleware c))\<rparr>"

text \<open>The handlers entered by \<open>execute c index\<close> on \<open>w\<close>, in the order of entry.\<close>

definition handler_trace :: "'w MiddlewareChain \<Rightarrow> nat \<Rightarrow> 'w \<Rightarrow> nat list" where
  "handler_trace c index w =
     (case execute (observe c) index (w, []) of Inl e \<Rightarrow> [] | Inr p \<Rightarrow> snd p)"

text \<open>The states in which a behaviour calls its continuation, one entry for each call.\<close>

primrec next_worlds :: "'w action \<Rightarrow> 'w Next \<Rightarrow> 'w list" where
  "next_worlds (Return w) next = []"
| "next_worlds (CallNext w k) next =
     w # (case next w of Inl e \<Rightarrow> [] | Inr w' \<Rightarrow> next_worlds (k w') next)"

text \<open>
  A run that is cut short: in the run of \<open>execute c index\<close> on \<open>w\<close> the handler at
  \<open>index\<close> and the \<open>n - 1\<close> after it each call their continuation once, and the
  handler \<open>n\<close> positions after \<open>index\<close> returns without calling it.
\<close>

primrec stops_after :: "nat \<Rightarrow> 'w MiddlewareChain \<Rightarrow> nat \<Rightarrow> 'w \<Rightarrow> bool" where
  "stops_after 0 c index w =
     (next_worlds ((middleware c ! index) w) (execute c (index + 1)) = [])"
| "stops_after (Suc n) c index w =
     (case next_worlds ((middleware c ! index) w) (execute c (index + 1)) of
        [] \<Rightarrow> False
      | v # vs \<Rightarrow> vs = [] \<and> stops_after n c (index + 1) v)"

text \<open>
  A behaviour that calls its continuation exactly \<open>m\<close> times, whatever the continuation
  does; a handler that does so unconditionally once, or never.
\<close>

primrec calls_exactly :: "'w action \<Rightarrow> nat \<Rightarrow> bool" where
  "calls_exactly (Return w) m = (m = 0)"
| "calls_exactly (CallNext w k) m = (0 < m \<and> (\<forall>w'. calls_exactly (k w') (m - 1)))"

definition invokes_once :: "'w MiddlewareFunc \<Rightarrow> bool" where
  "invokes_once f = (\<forall>w. calls_exactly (f w) 1)"

definition never_invokes :: "'w MiddlewareFunc \<Rightarrow> bool" where
  "never_invokes f = (\<forall>w. calls_exactly (f w) 0)"

text \<open>
  The remainder of a chain as a list of handlers, each wrapped around those after it.
\<close>

fun downstream :: "'w MiddlewareFunc list \<Rightarrow> 'w \<Rightarrow> fault + 'w" where
  "downstream [] w = Inr w"
| "downstream (f # fs) w = invoke (f w) (downstream fs)"

subsection \<open>Two dispatches on one chain\<close>

text \<open>
  Two calls of \<open>handle\<close> on the same chain, each on a freshly constructed request and
  response. The chain is the same object in both; the state the handlers hold is what
  the first dispatch left. \<open>traces_twice\<close> gives the handlers entered by the first and
  by the second dispatch.
\<close>

definition handle_twice :: "'e world MiddlewareChain \<Rightarrow> 'e \<Rightarrow> fault + ('e world \<times> 'e world)" where
  "handle_twice c e =
     (case handle c (fresh e) of
        Inl x \<Rightarrow> Inl x
      | Inr w1 \<Rightarrow>
          (case handle c (fresh (ext w1)) of
             Inl x \<Rightarrow> Inl x
           | Inr w2 \<Rightarrow> Inr (w1, w2)))"

definition traces_twice :: "'e world MiddlewareChain \<Rightarrow> 'e \<Rightarrow> nat list \<times> nat list" where
  "traces_twice c e =
     (case handle c (fresh e) of
        Inl x \<Rightarrow> ([], [])
      | Inr w1 \<Rightarrow> (handler_trace c 0 (fresh e), handler_trace c 0 (fresh (ext w1))))"

text \<open>
  The second dispatch repeats the first: both return, they leave the same request and
  the same response, and they enter the same handlers in the same order.
\<close>

definition repeats :: "'e world MiddlewareChain \<Rightarrow> 'e \<Rightarrow> bool" where
  "repeats c e =
     ((case handle_twice c e of
         Inl x \<Rightarrow> False
       | Inr p \<Rightarrow> req (snd p) = req (fst p) \<and> res (snd p) = res (fst p))
      \<and> snd (traces_twice c e) = fst (traces_twice c e))"

text \<open>
  Handlers whose behaviour does not depend on the state they hold: on two states with
  the same request and response they return or call the continuation alike, in states
  with the same request and response, and go on alike from such states. They may still
  write to the state they hold, as a handler that appends to a log does.
\<close>

definition same_rr :: "'e world \<Rightarrow> 'e world \<Rightarrow> bool" where
  "same_rr w w' = (req w = req w' \<and> res w = res w')"

primrec alike :: "'e world action \<Rightarrow> 'e world action \<Rightarrow> bool" where
  "alike (Return w) b = (case b of Return w' \<Rightarrow> same_rr w w' | CallNext w' k' \<Rightarrow> False)"
| "alike (CallNext w k) b =
     (case b of
        Return w' \<Rightarrow> False
      | CallNext w' k' \<Rightarrow> same_rr w w' \<and> (\<forall>v v'. same_rr v v' \<longrightarrow> alike (k v) (k' v')))"

definition ext_independent :: "'e world MiddlewareFunc \<Rightarrow> bool" where
  "ext_independent f = (\<forall>w w'. same_rr w w' \<longrightarrow> alike (f w) (f w'))"

subsection \<open>Example handlers\<close>

text \<open>
  Handlers in the style of the scenarios the chain is described with. They are inputs on
  which the theorems below are instantiated.
\<close>

definition setHeader :: "string \<Rightarrow> string \<Rightarrow> 'e world MiddlewareFunc" where
  "setHeader name val =
     (\<lambda>w. CallNext (w\<lparr>res := (res w)\<lparr>headers := (headers (res w))(name \<mapsto> val)\<rparr>\<rparr>) Return)"

definition setStatus :: "32 word \<Rightarrow> 'e world MiddlewareFunc" where
  "setStatus s = (\<lambda>w. CallNext (w\<lparr>res := (res w)\<lparr>status := s\<rparr>\<rparr>) Return)"

definition appendLog :: "string \<Rightarrow> (string list) world MiddlewareFunc" where
  "appendLog name = (\<lambda>w. CallNext (w\<lparr>ext := ext w @ [name]\<rparr>) Return)"

definition reject :: "32 word \<Rightarrow> 'e world MiddlewareFunc" where
  "reject s = (\<lambda>w. Return (w\<lparr>res := (res w)\<lparr>status := s\<rparr>\<rparr>))"

definition authCheck :: "'e world MiddlewareFunc" where
  "authCheck =
     (\<lambda>w. if Request.headers (req w) ''Auth'' = None
          then Return (w\<lparr>res := (res w)\<lparr>status := 401\<rparr>\<rparr>)
          else CallNext w Return)"

definition callTwice :: "'w MiddlewareFunc" where
  "callTwice = (\<lambda>w. CallNext w (\<lambda>w1. CallNext w1 Return))"

definition recordStatusAfter :: "(32 word list) world MiddlewareFunc" where
  "recordStatusAfter =
     (\<lambda>w. CallNext (w\<lparr>res := (res w)\<lparr>headers := (headers (res w))(''X'' \<mapsto> ''1'')\<rparr>\<rparr>)
            (\<lambda>w2. Return (w2\<lparr>ext := ext w2 @ [status (res w2)]\<rparr>)))"

definition scenario_chain :: "(string list) world MiddlewareChain" where
  "scenario_chain =
     use (use (use new_MiddlewareChain (setHeader ''X'' ''1'')) (setStatus 404))
       (appendLog ''appendLog'')"

definition rejecting_chain :: "(string list) world MiddlewareChain" where
  "rejecting_chain =
     use (use (use new_MiddlewareChain (appendLog ''first'')) (reject 403)) (setStatus 201)"

definition wrapping_chain :: "(32 word list) world MiddlewareChain" where
  "wrapping_chain = use (use new_MiddlewareChain recordStatusAfter) (setStatus 404)"

definition repeating_chain :: "(string list) world MiddlewareChain" where
  "repeating_chain =
     use (use (use new_MiddlewareChain callTwice) (appendLog ''a'')) (appendLog ''b'')"

definition auth_chain :: "unit world MiddlewareChain" where
  "auth_chain = use (use new_MiddlewareChain authCheck) (setStatus 201)"

definition guarded_chain :: "unit world MiddlewareChain" where
  "guarded_chain =
     use (use (use new_MiddlewareChain (setHeader ''X'' ''1'')) authCheck) (setStatus 201)"

text \<open>
  A function object with a counter of its own, as in
  \<^verbatim>\<open>[n = 0](Request&, Response&, Next next) mutable { if (n++ == 0) next(); }\<close>:
  it lets the first request through and stops every later one.
\<close>

definition firstOnly :: "nat world MiddlewareFunc" where
  "firstOnly =
     (\<lambda>w. if ext w = 0 then CallNext (w\<lparr>ext := ext w + 1\<rparr>) Return
          else Return (w\<lparr>ext := ext w + 1\<rparr>))"

definition counting_chain :: "nat world MiddlewareChain" where
  "counting_chain = use (use new_MiddlewareChain firstOnly) (setStatus 404)"

lemmas example_defs =
  scenario_chain_def rejecting_chain_def wrapping_chain_def repeating_chain_def auth_chain_def
  guarded_chain_def use_def new_MiddlewareChain_def fresh_def new_Request_def new_Response_def
  setHeader_def setStatus_def appendLog_def reject_def authCheck_def callTwice_def
  recordStatusAfter_def

section \<open>Auxiliary facts\<close>

subsection \<open>Unfolding execute\<close>

lemma execute_done: "length (middleware c) \<le> index \<Longrightarrow> execute c index w = Inr w"
  by (simp add: execute.simps)

lemma execute_step:
  "index < length (middleware c) \<Longrightarrow>
   execute c index w = invoke ((middleware c ! index) w) (execute c (Suc index))"
  by (subst execute.simps) (simp add: subscript_def)

text \<open>A continuation that always returns lets every behaviour return.\<close>

lemma invoke_total:
  "(\<And>v. \<exists>v'. nx v = Inr v') \<Longrightarrow> \<exists>w'. invoke a nx = Inr w'"
proof (induction a)
  case (Return w)
  show ?case by simp
next
  case (CallNext w k)
  from CallNext.prems obtain w1 where w1: "nx w = Inr w1" by blast
  from CallNext.IH [of "k w1"] CallNext.prems obtain w2 where "invoke (k w1) nx = Inr w2"
    by blast
  with w1 show ?case by simp
qed

lemma execute_total: "\<exists>w'. execute c index w = Inr w'"
proof (induction "length (middleware c) - index" arbitrary: index w)
  case 0
  then show ?case by (simp add: execute_done)
next
  case (Suc n)
  then have lt: "index < length (middleware c)" by simp
  have "\<And>v. \<exists>v'. execute c (Suc index) v = Inr v'"
    using Suc.hyps(1) [of "Suc index"] Suc.hyps(2) by simp
  then show ?case
    by (simp add: execute_step [OF lt] invoke_total)
qed

lemma execute_downstream: "execute c index w = downstream (drop index (middleware c)) w"
proof (induction "length (middleware c) - index" arbitrary: index w)
  case 0
  then show ?case by (simp add: execute_done)
next
  case (Suc n)
  then have lt: "index < length (middleware c)" by simp
  have "\<And>v. execute c (Suc index) v = downstream (drop (Suc index) (middleware c)) v"
    using Suc.hyps(1) [of "Suc index"] Suc.hyps(2) by simp
  then have "execute c (Suc index) = downstream (drop (Suc index) (middleware c))"
    by (simp add: fun_eq_iff)
  then show ?case
    using lt by (simp add: execute_step Cons_nth_drop_Suc [symmetric])
qed

lemma execute_bounded_enough:
  "length (middleware c) - index < d \<Longrightarrow> execute_bounded d c index w = execute c index w"
proof (induction d arbitrary: index w)
  case 0
  then show ?case by simp
next
  case (Suc d)
  show ?case
  proof (cases "index < length (middleware c)")
    case True
    with Suc.prems have "length (middleware c) - Suc index < d" by simp
    then have "\<And>v. execute_bounded d c (Suc index) v = execute c (Suc index) v"
      using Suc.IH by blast
    then have "execute_bounded d c (Suc index) = execute c (Suc index)"
      by (simp add: fun_eq_iff)
    with True show ?thesis by (simp add: execute_step subscript_def)
  next
    case False
    then show ?thesis by (simp add: execute_done)
  qed
qed

subsection \<open>Registration\<close>

text \<open>
  The vector holds the handlers in the order of the calls of \<open>use\<close>, and every chain is
  what registering its handlers one after the other on a new chain gives: position in
  the vector and order of registration are the same thing.
\<close>

lemma middleware_foldl_use: "middleware (foldl use c fs) = middleware c @ fs"
  by (induction fs arbitrary: c) (simp_all add: use_def)

lemma chain_is_registered: "foldl use new_MiddlewareChain (middleware c) = c"
  by (simp add: middleware_foldl_use new_MiddlewareChain_def)

subsection \<open>The observed chain\<close>

lemma length_observe [simp]: "length (middleware (observe c)) = length (middleware c)"
  by (simp add: observe_def)

lemma nth_observe:
  "index < length (middleware c) \<Longrightarrow>
   middleware (observe c) ! index = observed index (middleware c ! index)"
  by (simp add: observe_def nth_enumerate_eq)

text \<open>
  If the observed continuation does what the plain one does and adds \<open>T v\<close> to the log
  when called in state \<open>v\<close>, then the observed behaviour does what the plain one does
  and adds those entries, one block for each call.
\<close>

lemma invoke_with_log:
  assumes rel: "\<And>v g. nx' (v, g) = map_sum id (\<lambda>v'. (v', g @ T v)) (nx v)"
  shows "invoke (with_log a g) nx' =
         map_sum id (\<lambda>w'. (w', g @ concat (map T (next_worlds a nx)))) (invoke a nx)"
proof (induction a arbitrary: g)
  case (Return w)
  show ?case by simp
next
  case (CallNext w k)
  show ?case
  proof (cases "nx w")
    case (Inl e)
    then show ?thesis by (simp add: rel)
  next
    case (Inr w1)
    then show ?thesis
      using CallNext.IH [of "k w1" "g @ T w"] by (simp add: rel)
  qed
qed

lemma handler_trace_done:
  "length (middleware c) \<le> index \<Longrightarrow> handler_trace c index w = []"
  by (simp add: handler_trace_def execute_done)

lemma observe_execute_both:
  "execute (observe c) index (w, g) =
     map_sum id (\<lambda>w'. (w', g @ handler_trace c index w)) (execute c index w)
   \<and> (index < length (middleware c) \<longrightarrow>
        handler_trace c index w =
          index # concat (map (handler_trace c (Suc index))
                   (next_worlds ((middleware c ! index) w) (execute c (Suc index)))))"
proof (induction "length (middleware c) - index" arbitrary: index w g)
  case 0
  then show ?case by (simp add: execute_done handler_trace_done)
next
  case (Suc n)
  then have lt: "index < length (middleware c)" by simp
  let ?f = "middleware c ! index"
  let ?nx = "execute c (Suc index)"
  let ?T = "handler_trace c (Suc index)"
  have rel: "\<And>v g. execute (observe c) (Suc index) (v, g) =
                     map_sum id (\<lambda>v'. (v', g @ ?T v)) (?nx v)"
    using Suc.hyps(1) [of "Suc index"] Suc.hyps(2) by simp
  have step: "\<And>g. execute (observe c) index (w, g) =
      map_sum id (\<lambda>w'. (w', (g @ [index]) @ concat (map ?T (next_worlds (?f w) ?nx))))
        (execute c index w)"
    using lt invoke_with_log [where nx' = "execute (observe c) (Suc index)"
        and nx = ?nx and T = ?T, OF rel]
    by (simp add: execute_step nth_observe observed_def)
  obtain w' where w': "execute c index w = Inr w'"
    using execute_total [of c index w] by blast
  have tr: "handler_trace c index w = index # concat (map ?T (next_worlds (?f w) ?nx))"
    by (simp add: handler_trace_def step w')
  show ?case using step [of g] tr by simp
qed

text \<open>
  Observation changes nothing: the observed dispatch leaves the state the plain one
  leaves, and extends whatever log it is given by its trace.
\<close>

lemma observe_execute:
  "execute (observe c) index (w, g) =
     map_sum id (\<lambda>w'. (w', g @ handler_trace c index w)) (execute c index w)"
  using observe_execute_both [of c index w g] by simp

lemma handler_trace_step:
  "index < length (middleware c) \<Longrightarrow>
   handler_trace c index w =
     index # concat (map (handler_trace c (Suc index))
              (next_worlds ((middleware c ! index) w) (execute c (Suc index))))"
  using observe_execute_both [of c index w "[]"] by simp

lemma next_worlds_length:
  "(\<And>v. \<exists>v'. nx v = Inr v') \<Longrightarrow> calls_exactly a m \<Longrightarrow> length (next_worlds a nx) = m"
proof (induction a arbitrary: m)
  case (Return w)
  then show ?case by simp
next
  case (CallNext w k)
  from CallNext.prems(2) have pos: "0 < m" and rest: "\<And>w'. calls_exactly (k w') (m - 1)"
    by simp_all
  from CallNext.prems(1) obtain w1 where w1: "nx w = Inr w1" by blast
  have "length (next_worlds (k w1) nx) = m - 1"
    using CallNext.IH [of "k w1" "m - 1"] CallNext.prems(1) rest by blast
  with w1 pos show ?case by simp
qed

lemma next_worlds_execute_length:
  "calls_exactly a m \<Longrightarrow> length (next_worlds a (execute c index)) = m"
  using next_worlds_length [of "execute c index" a m] execute_total [of c index] by blast

lemma trace_once_from:
  assumes once: "\<And>i. j \<le> i \<Longrightarrow> i < length (middleware c) \<Longrightarrow> invokes_once (middleware c ! i)"
  shows "j \<le> index \<Longrightarrow> index \<le> length (middleware c) \<Longrightarrow>
         handler_trace c index w = [index..<length (middleware c)]"
proof (induction "length (middleware c) - index" arbitrary: index w)
  case 0
  then show ?case by (simp add: handler_trace_done)
next
  case (Suc n)
  then have lt: "index < length (middleware c)" by simp
  let ?nx = "execute c (Suc index)"
  have "calls_exactly ((middleware c ! index) w) 1"
    using once [OF Suc.prems(1) lt] by (simp add: invokes_once_def)
  then have "length (next_worlds ((middleware c ! index) w) ?nx) = 1"
    by (rule next_worlds_execute_length)
  then obtain v where v: "next_worlds ((middleware c ! index) w) ?nx = [v]"
    by (cases "next_worlds ((middleware c ! index) w) ?nx") auto
  have "handler_trace c (Suc index) v = [Suc index..<length (middleware c)]"
    using Suc.hyps(1) [of "Suc index" v] Suc.hyps(2) Suc.prems(1) lt by simp
  then show ?case
    using lt by (simp add: handler_trace_step v upt_conv_Cons)
qed

lemma concat_map_const:
  "(\<And>v. T v = t) \<Longrightarrow> concat (map T vs) = concat (replicate (length vs) t)"
  by (induction vs) simp_all

lemma trace_stops_after:
  "index + n < length (middleware c) \<Longrightarrow> stops_after n c index w \<Longrightarrow>
   handler_trace c index w = [index..<Suc (index + n)]"
proof (induction n arbitrary: index w)
  case 0
  then show ?case by (simp add: handler_trace_step)
next
  case (Suc n)
  from Suc.prems(2) obtain v
    where v: "next_worlds ((middleware c ! index) w) (execute c (Suc index)) = [v]"
      and rest: "stops_after n c (Suc index) v"
    by (auto split: list.splits)
  have "handler_trace c (Suc index) v = [Suc index..<Suc (Suc index + n)]"
    using Suc.IH [of "Suc index" v] Suc.prems(1) rest by simp
  then show ?case
    using Suc.prems(1) by (simp add: handler_trace_step v upt_conv_Cons)
qed

text \<open>
  Handlers that call once whatever the state, followed by one that never calls, cut
  every run short.
\<close>

lemma stops_after_unconditional:
  assumes once: "\<And>i. j \<le> i \<Longrightarrow> i < k \<Longrightarrow> invokes_once (middleware c ! i)"
    and stop: "never_invokes (middleware c ! k)"
  shows "j \<le> index \<Longrightarrow> index + n = k \<Longrightarrow> stops_after n c index w"
proof (induction n arbitrary: index w)
  case (0 index w)
  then have "calls_exactly ((middleware c ! index) w) 0"
    using stop by (simp add: never_invokes_def)
  then have "length (next_worlds ((middleware c ! index) w) (execute c (Suc index))) = 0"
    by (rule next_worlds_execute_length)
  then show ?case by simp
next
  case (Suc n index w)
  have "calls_exactly ((middleware c ! index) w) 1"
    using once [of index] Suc.prems by (simp add: invokes_once_def)
  then have "length (next_worlds ((middleware c ! index) w) (execute c (Suc index))) = 1"
    by (rule next_worlds_execute_length)
  then obtain v where v: "next_worlds ((middleware c ! index) w) (execute c (Suc index)) = [v]"
    by (cases "next_worlds ((middleware c ! index) w) (execute c (Suc index))") auto
  have "stops_after n c (Suc index) v"
    using Suc.prems by (intro Suc.IH) simp_all
  then show ?case by (simp add: v)
qed

subsection \<open>Handlers that do not depend on the state they hold\<close>

lemma invoke_alike:
  assumes nx: "\<And>v v'. same_rr v v' \<Longrightarrow> \<exists>u u'. nx v = Inr u \<and> nx' v' = Inr u' \<and> same_rr u u'"
  shows "alike a a' \<Longrightarrow> \<exists>u u'. invoke a nx = Inr u \<and> invoke a' nx' = Inr u' \<and> same_rr u u'"
proof (induction a arbitrary: a')
  case (Return w)
  then show ?case by (cases a') simp_all
next
  case (CallNext w k)
  from CallNext.prems obtain w' k' where a': "a' = CallNext w' k'"
    and ww: "same_rr w w'"
    and kk: "\<And>v v'. same_rr v v' \<Longrightarrow> alike (k v) (k' v')"
    by (cases a') simp_all
  from nx [OF ww] obtain u u' where u: "nx w = Inr u" "nx' w' = Inr u'" "same_rr u u'"
    by blast
  from CallNext.IH [of "k u" "k' u'"] kk [OF u(3)]
  show ?case by (simp add: a' u(1,2))
qed

lemma next_worlds_alike:
  assumes nx: "\<And>v v'. same_rr v v' \<Longrightarrow> \<exists>u u'. nx v = Inr u \<and> nx' v' = Inr u' \<and> same_rr u u'"
  shows "alike a a' \<Longrightarrow> list_all2 same_rr (next_worlds a nx) (next_worlds a' nx')"
proof (induction a arbitrary: a')
  case (Return w)
  then show ?case by (cases a') simp_all
next
  case (CallNext w k)
  from CallNext.prems obtain w' k' where a': "a' = CallNext w' k'"
    and ww: "same_rr w w'"
    and kk: "\<And>v v'. same_rr v v' \<Longrightarrow> alike (k v) (k' v')"
    by (cases a') simp_all
  from nx [OF ww] obtain u u' where u: "nx w = Inr u" "nx' w' = Inr u'" "same_rr u u'"
    by blast
  from CallNext.IH [of "k u" "k' u'"] kk [OF u(3)]
  show ?case by (simp add: a' u(1,2) ww)
qed

lemma concat_map_alike:
  "list_all2 same_rr vs vs' \<Longrightarrow> (\<And>v v'. same_rr v v' \<Longrightarrow> T v = T v') \<Longrightarrow>
   concat (map T vs) = concat (map T vs')"
  by (induction vs vs' rule: list_all2_induct) auto

text \<open>
  In a chain of such handlers, the request and response a run leaves and the handlers
  it enters are the same from any two states with the same request and response.
\<close>

lemma execute_ext_independent:
  assumes ind: "\<And>i. i < length (middleware c) \<Longrightarrow> ext_independent (middleware c ! i)"
  shows "same_rr w w' \<Longrightarrow>
         (\<exists>u u'. execute c index w = Inr u \<and> execute c index w' = Inr u' \<and> same_rr u u')
         \<and> handler_trace c index w = handler_trace c index w'"
proof (induction "length (middleware c) - index" arbitrary: index w w')
  case 0
  then show ?case by (simp add: execute_done handler_trace_done)
next
  case (Suc n)
  then have lt: "index < length (middleware c)" by simp
  let ?f = "middleware c ! index"
  let ?nx = "execute c (Suc index)"
  have below: "\<And>v v'. same_rr v v' \<Longrightarrow>
      (\<exists>u u'. ?nx v = Inr u \<and> ?nx v' = Inr u' \<and> same_rr u u')
      \<and> handler_trace c (Suc index) v = handler_trace c (Suc index) v'"
    using Suc.hyps(1) [of "Suc index"] Suc.hyps(2) by simp
  have al: "alike (?f w) (?f w')"
    using ind [OF lt] Suc.prems by (simp add: ext_independent_def)
  have res: "\<exists>u u'. invoke (?f w) ?nx = Inr u \<and> invoke (?f w') ?nx = Inr u' \<and> same_rr u u'"
    using al by (intro invoke_alike) (use below in blast)+
  have "list_all2 same_rr (next_worlds (?f w) ?nx) (next_worlds (?f w') ?nx)"
    using al by (intro next_worlds_alike) (use below in blast)+
  then have "concat (map (handler_trace c (Suc index)) (next_worlds (?f w) ?nx)) =
             concat (map (handler_trace c (Suc index)) (next_worlds (?f w') ?nx))"
    by (rule concat_map_alike) (use below in blast)
  with res lt show ?case by (simp add: execute_step handler_trace_step)
qed

lemma same_rr_fresh: "same_rr (fresh e) (fresh e')"
  by (simp add: same_rr_def fresh_def)

lemma ext_independent_examples:
  "ext_independent (setHeader name val)"
  "ext_independent (setStatus s)"
  "ext_independent (appendLog name)"
  "ext_independent (reject s)"
  "ext_independent authCheck"
  by (auto simp: ext_independent_def same_rr_def setHeader_def setStatus_def appendLog_def
      reject_def authCheck_def)

lemma counting_first:
  "handle counting_chain (fresh 0) =
     Inr \<lparr>req = new_Request, res = \<lparr>status = 404, headers = Map.empty, body = ''''\<rparr>, ext = 1\<rparr>"
  by (simp add: counting_chain_def firstOnly_def example_defs handle_def execute_step execute_done)

lemma counting_second:
  "handle counting_chain (fresh (Suc 0)) =
     Inr \<lparr>req = new_Request, res = \<lparr>status = 200, headers = Map.empty, body = ''''\<rparr>, ext = 2\<rparr>"
  by (simp add: counting_chain_def firstOnly_def example_defs handle_def execute_step execute_done)

lemma counting_traces:
  "handler_trace counting_chain 0 (fresh 0) = [0, 1]"
  "handler_trace counting_chain 0 (fresh (Suc 0)) = [0]"
  by (simp_all add: counting_chain_def firstOnly_def example_defs handler_trace_def execute_step
      execute_done observe_def observed_def enumerate_eq_zip)

section \<open>Properties of the chain\<close>

text \<open>
  C1. In a chain of N handlers each of which calls its continuation exactly once,
  whatever the state, a dispatch enters all N handlers, each exactly once, in the order
  of registration: the observation log grows by the positions 0, 1, ..., N - 1, which
  are in the order of registration, and the state left is the one the unobserved
  dispatch leaves.
\<close>

theorem handle_runs_all_in_registration_order:
  assumes "\<forall>f \<in> set (middleware c). invokes_once f"
  shows "handle (observe c) (w, l) =
         map_sum id (\<lambda>w'. (w', l @ [0..<length (middleware c)])) (handle c w)"
proof -
  have "handler_trace c 0 w = [0..<length (middleware c)]"
    using assms by (intro trace_once_from [where j = 0]) simp_all
  then show ?thesis by (simp add: handle_def observe_execute)
qed

theorem handle_runs_all_in_registration_order_witness:
  "list_all invokes_once (middleware scenario_chain) \<and>
   handle (observe scenario_chain) (fresh [], []) =
     Inr (\<lparr>req = new_Request,
           res = \<lparr>status = 404, headers = [''X'' \<mapsto> ''1''], body = ''''\<rparr>,
           ext = [''appendLog'']\<rparr>, [0, 1, 2])"
proof -
  have each: "list_all invokes_once (middleware scenario_chain)"
    by (simp add: example_defs invokes_once_def)
  then have once: "\<forall>f \<in> set (middleware scenario_chain). invokes_once f"
    by (simp add: list_all_iff)
  have "handle scenario_chain (fresh []) =
     Inr \<lparr>req = new_Request,
          res = \<lparr>status = 404, headers = [''X'' \<mapsto> ''1''], body = ''''\<rparr>,
          ext = [''appendLog'']\<rparr>"
    by (simp add: example_defs handle_def execute_step execute_done)
  with handle_runs_all_in_registration_order [OF once, of "fresh []" "[]"] each
  show ?thesis by (simp add: scenario_chain_def use_def new_MiddlewareChain_def upt_rec)
qed

text \<open>
  C2. If, in a dispatch, each of the handlers 0, ..., k - 1 calls its continuation once
  and the handler at position k returns without calling its continuation, then the
  dispatch enters exactly the handlers 0, ..., k, in this order, and no handler after
  position k. This holds for the single run in which the handlers behave so, and hence
  for handlers that behave so whatever the state.
\<close>

theorem handle_short_circuits:
  assumes k: "k < length (middleware c)"
  shows "(stops_after k c 0 w \<longrightarrow>
            handle (observe c) (w, l) = map_sum id (\<lambda>w'. (w', l @ [0..<Suc k])) (handle c w))
       \<and> ((\<forall>i<k. invokes_once (middleware c ! i)) \<and> never_invokes (middleware c ! k) \<longrightarrow>
            handle (observe c) (w, l) = map_sum id (\<lambda>w'. (w', l @ [0..<Suc k])) (handle c w))"
proof -
  have run: "handle (observe c) (w, l) = map_sum id (\<lambda>w'. (w', l @ [0..<Suc k])) (handle c w)"
    if "stops_after k c 0 w"
  proof -
    have "handler_trace c 0 w = [0..<Suc (0 + k)]"
      using k that by (intro trace_stops_after) simp_all
    then show ?thesis by (simp add: handle_def observe_execute)
  qed
  have "stops_after k c 0 w"
    if "(\<forall>i<k. invokes_once (middleware c ! i)) \<and> never_invokes (middleware c ! k)"
    using that by (intro stops_after_unconditional [where j = 0 and k = k]) simp_all
  with run show ?thesis by blast
qed

text \<open>
  Two instances. A request without the header \<open>Auth\<close> is stopped by \<open>authCheck\<close> at
  position 1, so the status is never set by the handler at position 2; and a handler
  that rejects every request stops every dispatch.
\<close>

theorem handle_short_circuits_witness:
  "1 < length (middleware guarded_chain) \<and>
   stops_after 1 guarded_chain 0 (fresh ()) \<and>
   handle (observe guarded_chain) (fresh (), []) =
     Inr (\<lparr>req = new_Request,
           res = \<lparr>status = 401, headers = [''X'' \<mapsto> ''1''], body = ''''\<rparr>,
           ext = ()\<rparr>, [0, 1]) \<and>
   1 < length (middleware rejecting_chain) \<and>
   invokes_once (middleware rejecting_chain ! 0) \<and>
   never_invokes (middleware rejecting_chain ! 1) \<and>
   handle (observe rejecting_chain) (fresh [], []) =
     Inr (\<lparr>req = new_Request,
           res = \<lparr>status = 403, headers = Map.empty, body = ''''\<rparr>,
           ext = [''first'']\<rparr>, [0, 1])"
proof -
  have g1: "1 < length (middleware guarded_chain)"
    by (simp add: example_defs)
  have g2: "stops_after 1 guarded_chain 0 (fresh ())"
    by (simp add: example_defs execute_step execute_done)
  have g3: "handle guarded_chain (fresh ()) =
     Inr \<lparr>req = new_Request,
          res = \<lparr>status = 401, headers = [''X'' \<mapsto> ''1''], body = ''''\<rparr>,
          ext = ()\<rparr>"
    by (simp add: example_defs handle_def execute_step execute_done)
  from handle_short_circuits [OF g1, of "fresh ()" "[]"] g2
  have g: "handle (observe guarded_chain) (fresh (), []) =
             map_sum id (\<lambda>w'. (w', [] @ [0..<Suc 1])) (handle guarded_chain (fresh ()))"
    by blast
  have h1: "1 < length (middleware rejecting_chain)"
    by (simp add: example_defs)
  have h0: "invokes_once (middleware rejecting_chain ! 0)"
    by (simp add: example_defs invokes_once_def)
  then have h2: "\<forall>i<1. invokes_once (middleware rejecting_chain ! i)"
    by simp
  have h3: "never_invokes (middleware rejecting_chain ! 1)"
    by (simp add: example_defs never_invokes_def)
  have h4: "handle rejecting_chain (fresh []) =
     Inr \<lparr>req = new_Request,
          res = \<lparr>status = 403, headers = Map.empty, body = ''''\<rparr>,
          ext = [''first'']\<rparr>"
    by (simp add: example_defs handle_def execute_step execute_done)
  from handle_short_circuits [OF h1, of "fresh []" "[]"] h2 h3
  have h: "handle (observe rejecting_chain) (fresh [], []) =
             map_sum id (\<lambda>w'. (w', [] @ [0..<Suc 1])) (handle rejecting_chain (fresh []))"
    by blast
  from g1 g2 g h1 h0 h3 h show ?thesis
    by (simp add: g3 h4 upt_rec)
qed

text \<open>
  C3. The continuation is a synchronous call of the whole remainder of the chain. When
  the handler at \<open>index\<close> calls it in state \<open>w1\<close>, the rest \<open>k\<close> of the handler runs on
  the state \<open>w2\<close> that \<open>execute\<close> at \<open>index + 1\<close> returns; that run is the run of all
  handlers registered after \<open>index\<close>, each wrapped around its successors; and by the
  time \<open>k\<close> runs, every handler that was entered downstream has been logged.
\<close>

theorem continuation_wraps_downstream:
  assumes lt: "index < length (middleware c)"
    and call: "(middleware c ! index) w = CallNext w1 k"
  shows "execute c index w =
           (case execute c (index + 1) w1 of
              Inl e \<Rightarrow> Inl e
            | Inr w2 \<Rightarrow> invoke (k w2) (execute c (index + 1)))
         \<and> execute c (index + 1) w1 = downstream (drop (index + 1) (middleware c)) w1
         \<and> execute (observe c) index (w, l) =
           (case execute c (index + 1) w1 of
              Inl e \<Rightarrow> Inl e
            | Inr w2 \<Rightarrow> invoke (with_log (k w2) (l @ [index] @ handler_trace c (index + 1) w1))
                         (execute (observe c) (index + 1)))"
proof -
  have a: "execute c index w =
           (case execute c (index + 1) w1 of
              Inl e \<Rightarrow> Inl e
            | Inr w2 \<Rightarrow> invoke (k w2) (execute c (index + 1)))"
    using lt call by (cases "execute c (Suc index) w1") (simp_all add: execute_step)
  have b: "execute c (index + 1) w1 = downstream (drop (index + 1) (middleware c)) w1"
    by (rule execute_downstream)
  have c: "execute (observe c) index (w, l) =
           (case execute c (index + 1) w1 of
              Inl e \<Rightarrow> Inl e
            | Inr w2 \<Rightarrow> invoke (with_log (k w2) (l @ [index] @ handler_trace c (index + 1) w1))
                         (execute (observe c) (index + 1)))"
  proof -
    have enter: "execute (observe c) index (w, l) =
                 invoke (with_log (CallNext w1 k) (l @ [index])) (execute (observe c) (Suc index))"
      using lt call by (simp add: execute_step [of index "observe c"] nth_observe observed_def)
    have below: "execute (observe c) (Suc index) (w1, l @ [index]) =
                 map_sum id (\<lambda>w2. (w2, (l @ [index]) @ handler_trace c (Suc index) w1))
                   (execute c (Suc index) w1)"
      by (rule observe_execute)
    show ?thesis
      by (cases "execute c (Suc index) w1") (simp_all add: enter below)
  qed
  from a b c show ?thesis by blast
qed

text \<open>
  The instance: the first handler sets a header, calls its continuation and afterwards
  records the status it finds; the second sets the status to 404. The first handler
  finds 404, not the default 200.
\<close>

theorem continuation_wraps_downstream_witness:
  "0 < length (middleware wrapping_chain) \<and>
   (middleware wrapping_chain ! 0) (fresh []) =
     CallNext \<lparr>req = new_Request,
               res = \<lparr>status = 200, headers = [''X'' \<mapsto> ''1''], body = ''''\<rparr>, ext = []\<rparr>
       (\<lambda>w2. Return (w2\<lparr>ext := ext w2 @ [status (res w2)]\<rparr>)) \<and>
   execute wrapping_chain (0 + 1)
     \<lparr>req = new_Request,
      res = \<lparr>status = 200, headers = [''X'' \<mapsto> ''1''], body = ''''\<rparr>, ext = []\<rparr> =
     Inr \<lparr>req = new_Request,
          res = \<lparr>status = 404, headers = [''X'' \<mapsto> ''1''], body = ''''\<rparr>, ext = []\<rparr> \<and>
   execute wrapping_chain 0 (fresh []) =
     Inr \<lparr>req = new_Request,
          res = \<lparr>status = 404, headers = [''X'' \<mapsto> ''1''], body = ''''\<rparr>, ext = [404]\<rparr>"
proof -
  let ?w1 = "\<lparr>req = new_Request,
              res = \<lparr>status = 200, headers = [''X'' \<mapsto> ''1''], body = ''''\<rparr>,
              ext = [] :: 32 word list\<rparr>"
  let ?k = "\<lambda>w2 :: (32 word list) world. Return (w2\<lparr>ext := ext w2 @ [status (res w2)]\<rparr>)"
  have h1: "0 < length (middleware wrapping_chain)"
    by (simp add: example_defs)
  have h2: "(middleware wrapping_chain ! 0) (fresh []) = CallNext ?w1 ?k"
    by (simp add: example_defs)
  have below: "execute wrapping_chain (0 + 1) ?w1 =
     Inr \<lparr>req = new_Request,
          res = \<lparr>status = 404, headers = [''X'' \<mapsto> ''1''], body = ''''\<rparr>, ext = []\<rparr>"
    by (simp add: example_defs execute_step execute_done)
  from continuation_wraps_downstream [OF h1 h2, of "[]"] h1 h2 below
  show ?thesis by simp
qed

text \<open>
  C4. A dispatch on a chain with no registered handler returns normally and leaves the
  request, the response and everything else as they were.
\<close>

theorem handle_empty_chain_unchanged:
  assumes "middleware c = []"
  shows "handle c \<lparr>req = rq, res = rs, ext = e\<rparr> = Inr \<lparr>req = rq, res = rs, ext = e\<rparr>"
  using assms by (simp add: handle_def execute_done)

theorem handle_empty_chain_unchanged_witness:
  "middleware (new_MiddlewareChain :: unit world MiddlewareChain) = [] \<and>
   handle new_MiddlewareChain \<lparr>req = new_Request, res = new_Response, ext = ()\<rparr> =
     Inr \<lparr>req = new_Request, res = new_Response, ext = ()\<rparr>"
proof -
  have h: "middleware (new_MiddlewareChain :: unit world MiddlewareChain) = []"
    by (simp add: new_MiddlewareChain_def)
  from handle_empty_chain_unchanged [OF h, of new_Request new_Response "()"] h
  show ?thesis by simp
qed

text \<open>
  C5. \<open>use\<close> has no failing case and returns nothing but the updated chain: the handler
  is appended at the end, the length grows by one, and every entry registered before
  stays at its position.
\<close>

theorem use_appends:
  "middleware (use c func) = middleware c @ [func]
   \<and> length (middleware (use c func)) = length (middleware c) + 1
   \<and> (\<forall>i<length (middleware c). middleware (use c func) ! i = middleware c ! i)
   \<and> middleware (use c func) ! length (middleware c) = func"
  by (simp add: use_def nth_append)

theorem use_appends_witness:
  "middleware (use auth_chain (reject 500)) = middleware auth_chain @ [reject 500]
   \<and> length (middleware (use auth_chain (reject 500))) = 2 + 1
   \<and> middleware (use auth_chain (reject 500)) ! 0 = authCheck
   \<and> middleware (use auth_chain (reject 500)) ! 1 = setStatus 201
   \<and> middleware (use auth_chain (reject 500)) ! 2 = reject 500"
proof -
  have old: "middleware auth_chain = [authCheck, setStatus 201]"
    by (simp add: auth_chain_def use_def new_MiddlewareChain_def)
  have len: "length (middleware auth_chain) = 2"
    by (simp add: old)
  from use_appends [of auth_chain "reject 500"]
  have a: "middleware (use auth_chain (reject 500)) = middleware auth_chain @ [reject 500]"
    and b: "length (middleware (use auth_chain (reject 500))) = 2 + 1"
    and c: "\<forall>i<2. middleware (use auth_chain (reject 500)) ! i = middleware auth_chain ! i"
    and d: "middleware (use auth_chain (reject 500)) ! 2 = reject 500"
    unfolding len by blast+
  from c have "middleware (use auth_chain (reject 500)) ! 0 = middleware auth_chain ! 0"
    and "middleware (use auth_chain (reject 500)) ! 1 = middleware auth_chain ! 1"
    by simp_all
  then have e: "middleware (use auth_chain (reject 500)) ! 0 = authCheck"
    and f: "middleware (use auth_chain (reject 500)) ! 1 = setStatus 201"
    by (simp_all add: old)
  from a b d e f show ?thesis by blast
qed

text \<open>
  C6. Every call a handler at \<open>index\<close> makes of its continuation is a call of
  \<open>execute\<close> at \<open>index + 1\<close> on the same chain, hence a run of the handlers
  registered after \<open>index\<close>, from the state in which the call is made. The handlers
  entered are the handler itself, once, and then, for each call in turn, those that the
  remainder of the chain enters from that state. A handler that calls \<open>m\<close> times
  makes \<open>m\<close> such runs; where each handler after it calls its continuation once, the
  trace is \<open>index\<close> followed by as many copies of \<open>index + 1, ..., N - 1\<close> as there
  are calls.
\<close>

theorem continuation_reinvoked_reexecutes_rest:
  assumes lt: "index < length (middleware c)"
  shows "execute c index w = invoke ((middleware c ! index) w) (execute c (index + 1))
       \<and> execute c (index + 1) = downstream (drop (index + 1) (middleware c))
       \<and> handler_trace c index w =
           index # concat (map (handler_trace c (index + 1))
                      (next_worlds ((middleware c ! index) w) (execute c (index + 1))))
       \<and> (calls_exactly ((middleware c ! index) w) m \<longrightarrow>
            length (next_worlds ((middleware c ! index) w) (execute c (index + 1))) = m)
       \<and> ((\<forall>i. index < i \<and> i < length (middleware c) \<longrightarrow> invokes_once (middleware c ! i)) \<longrightarrow>
            handler_trace c index w =
              index # concat (replicate
                (length (next_worlds ((middleware c ! index) w) (execute c (index + 1))))
                [index + 1..<length (middleware c)]))"
proof -
  let ?vs = "next_worlds ((middleware c ! index) w) (execute c (Suc index))"
  have step: "execute c index w = invoke ((middleware c ! index) w) (execute c (Suc index))"
    using lt by (rule execute_step)
  have same: "execute c (Suc index) = downstream (drop (Suc index) (middleware c))"
    by (simp add: fun_eq_iff execute_downstream)
  have tr: "handler_trace c index w = index # concat (map (handler_trace c (Suc index)) ?vs)"
    using lt by (rule handler_trace_step)
  have len: "length ?vs = m" if "calls_exactly ((middleware c ! index) w) m"
    using that by (rule next_worlds_execute_length)
  have rep: "handler_trace c index w =
               index # concat (replicate (length ?vs) [Suc index..<length (middleware c)])"
    if all: "\<forall>i. index < i \<and> i < length (middleware c) \<longrightarrow> invokes_once (middleware c ! i)"
  proof -
    have "\<And>v. handler_trace c (Suc index) v = [Suc index..<length (middleware c)]"
      using all lt by (intro trace_once_from [where j = "Suc index"]) simp_all
    then have "concat (map (handler_trace c (Suc index)) ?vs) =
               concat (replicate (length ?vs) [Suc index..<length (middleware c)])"
      by (rule concat_map_const)
    with tr show ?thesis by simp
  qed
  have a: "execute c index w = invoke ((middleware c ! index) w) (execute c (index + 1))"
    using step by simp
  have b: "execute c (index + 1) = downstream (drop (index + 1) (middleware c))"
    using same by simp
  have c: "handler_trace c index w =
           index # concat (map (handler_trace c (index + 1))
                      (next_worlds ((middleware c ! index) w) (execute c (index + 1))))"
    using tr by simp
  have d: "calls_exactly ((middleware c ! index) w) m \<longrightarrow>
            length (next_worlds ((middleware c ! index) w) (execute c (index + 1))) = m"
    using len by simp
  have e: "(\<forall>i. index < i \<and> i < length (middleware c) \<longrightarrow> invokes_once (middleware c ! i)) \<longrightarrow>
            handler_trace c index w =
              index # concat (replicate
                (length (next_worlds ((middleware c ! index) w) (execute c (index + 1))))
                [index + 1..<length (middleware c)])"
    using rep by simp
  from a b c d e show ?thesis by blast
qed

text \<open>
  The instance: a handler that calls its continuation twice, before two handlers that
  each append to a log. The remainder runs twice, the second time from the state the
  first run left.
\<close>

theorem continuation_reinvoked_reexecutes_rest_witness:
  "0 < length (middleware repeating_chain) \<and>
   calls_exactly ((middleware repeating_chain ! 0) (fresh [])) 2 \<and>
   invokes_once (middleware repeating_chain ! 1) \<and>
   invokes_once (middleware repeating_chain ! 2) \<and>
   next_worlds ((middleware repeating_chain ! 0) (fresh [])) (execute repeating_chain (0 + 1)) =
     [fresh [], \<lparr>req = new_Request, res = new_Response, ext = [''a'', ''b'']\<rparr>] \<and>
   handler_trace repeating_chain 0 (fresh []) = [0, 1, 2, 1, 2] \<and>
   execute repeating_chain 0 (fresh []) =
     Inr \<lparr>req = new_Request, res = new_Response, ext = [''a'', ''b'', ''a'', ''b'']\<rparr>"
proof -
  have h1: "0 < length (middleware repeating_chain)"
    by (simp add: example_defs)
  have h2: "calls_exactly ((middleware repeating_chain ! 0) (fresh [])) 2"
    by (simp add: example_defs)
  have o1: "invokes_once (middleware repeating_chain ! 1)"
    and o2: "invokes_once (middleware repeating_chain ! 2)"
    by (simp_all add: example_defs invokes_once_def)
  have len: "length (middleware repeating_chain) = 3"
    by (simp add: example_defs)
  have all: "\<forall>i. 0 < i \<and> i < length (middleware repeating_chain) \<longrightarrow>
               invokes_once (middleware repeating_chain ! i)"
  proof (intro allI impI)
    fix i :: nat
    assume "0 < i \<and> i < length (middleware repeating_chain)"
    then have "i = 1 \<or> i = 2" using len by auto
    with o1 o2 show "invokes_once (middleware repeating_chain ! i)" by auto
  qed
  have nw: "next_worlds ((middleware repeating_chain ! 0) (fresh []))
              (execute repeating_chain (0 + 1)) =
     [fresh [], \<lparr>req = new_Request, res = new_Response, ext = [''a'', ''b'']\<rparr>]"
    by (simp add: example_defs execute_step execute_done)
  have r: "execute repeating_chain 0 (fresh []) =
     Inr \<lparr>req = new_Request, res = new_Response, ext = [''a'', ''b'', ''a'', ''b'']\<rparr>"
    by (simp add: example_defs execute_step execute_done)
  from continuation_reinvoked_reexecutes_rest [OF h1, of "fresh []" 2] h2 all
  have tr: "handler_trace repeating_chain 0 (fresh []) =
          0 # concat (replicate
            (length (next_worlds ((middleware repeating_chain ! 0) (fresh []))
               (execute repeating_chain (0 + 1))))
            [0 + 1..<length (middleware repeating_chain)])"
    and twice: "length (next_worlds ((middleware repeating_chain ! 0) (fresh []))
               (execute repeating_chain (0 + 1))) = 2"
    by blast+
  have "handler_trace repeating_chain 0 (fresh []) = [0, 1, 2, 1, 2]"
    unfolding tr twice by (simp add: len upt_rec numeral_2_eq_2)
  with h1 h2 o1 o2 nw r show ?thesis by blast
qed

text \<open>
  C7. Every dispatch starts at index 0, and the chain keeps no cursor from one dispatch
  to the next. What does last from one dispatch to the next is the state the handlers
  themselves hold, which the chain does not reset. So two dispatches on freshly
  constructed requests and responses leave the same request and response and enter the
  same handlers in the same order provided the behaviour of no handler depends on the
  state it holds; more generally, in such a chain the outcome of a dispatch depends on
  the request and the response it is given and on nothing that an earlier dispatch left.
\<close>

theorem handle_twice_repeats_when_ext_independent:
  assumes ind: "\<forall>f \<in> set (middleware c). ext_independent f"
  shows "repeats c e
       \<and> (same_rr w w' \<longrightarrow>
            (\<exists>u u'. handle c w = Inr u \<and> handle c w' = Inr u' \<and> same_rr u u')
            \<and> handler_trace c 0 w = handler_trace c 0 w')
       \<and> handle c w = execute c 0 w
       \<and> (middleware c \<noteq> [] \<longrightarrow> (\<exists>t. handler_trace c 0 w = 0 # t))"
proof -
  have each: "\<And>i. i < length (middleware c) \<Longrightarrow> ext_independent (middleware c ! i)"
    using ind by simp
  have gen: "(\<exists>u u'. handle c v = Inr u \<and> handle c v' = Inr u' \<and> same_rr u u')
             \<and> handler_trace c 0 v = handler_trace c 0 v'" if "same_rr v v'" for v v'
    using execute_ext_independent [of c v v' 0, OF each that] by (simp add: handle_def)
  obtain w1 where w1: "handle c (fresh e) = Inr w1"
    using execute_total [of c 0 "fresh e"] by (auto simp: handle_def)
  from gen [OF same_rr_fresh [of e "ext w1"]] w1
  obtain w2 where w2: "handle c (fresh (ext w1)) = Inr w2" and rr: "same_rr w1 w2"
    and tr: "handler_trace c 0 (fresh e) = handler_trace c 0 (fresh (ext w1))"
    by auto
  have rep: "repeats c e"
    using rr tr by (simp add: repeats_def handle_twice_def traces_twice_def w1 w2 same_rr_def)
  have start: "middleware c \<noteq> [] \<longrightarrow> (\<exists>t. handler_trace c 0 w = 0 # t)"
    by (simp add: handler_trace_step)
  from rep gen [of w w'] start show ?thesis by (simp add: handle_def)
qed

text \<open>
  The instance: the chain that sets a header, sets the status and appends to a log. The
  log, which the handlers hold, grows from one dispatch to the next; request, response
  and the handlers entered are the same in both.
\<close>

theorem handle_twice_repeats_when_ext_independent_witness:
  "list_all ext_independent (middleware scenario_chain)
   \<and> handle_twice scenario_chain [] =
       Inr (\<lparr>req = new_Request,
             res = \<lparr>status = 404, headers = [''X'' \<mapsto> ''1''], body = ''''\<rparr>,
             ext = [''appendLog'']\<rparr>,
            \<lparr>req = new_Request,
             res = \<lparr>status = 404, headers = [''X'' \<mapsto> ''1''], body = ''''\<rparr>,
             ext = [''appendLog'', ''appendLog'']\<rparr>)
   \<and> repeats scenario_chain []"
proof -
  have ms: "middleware scenario_chain =
              [setHeader ''X'' ''1'', setStatus 404, appendLog ''appendLog'']"
    by (simp add: scenario_chain_def use_def new_MiddlewareChain_def)
  have each: "list_all ext_independent (middleware scenario_chain)"
    by (simp add: ms ext_independent_examples)
  then have ind: "\<forall>f \<in> set (middleware scenario_chain). ext_independent f"
    by (simp add: list_all_iff)
  have twice: "handle_twice scenario_chain [] =
       Inr (\<lparr>req = new_Request,
             res = \<lparr>status = 404, headers = [''X'' \<mapsto> ''1''], body = ''''\<rparr>,
             ext = [''appendLog'']\<rparr>,
            \<lparr>req = new_Request,
             res = \<lparr>status = 404, headers = [''X'' \<mapsto> ''1''], body = ''''\<rparr>,
             ext = [''appendLog'', ''appendLog'']\<rparr>)"
    by (simp add: handle_twice_def example_defs handle_def execute_step execute_done)
  from handle_twice_repeats_when_ext_independent [OF ind, of "[]"]
  have "repeats scenario_chain []"
    by blast
  with each twice show ?thesis by blast
qed

text \<open>
  Without the proviso the second dispatch need not repeat the first. In the chain of
  \<open>firstOnly\<close> and a handler that sets the status to 404, the first dispatch on a fresh
  request and response enters both handlers and leaves status 404; the second, again
  on a fresh request and response, starts at handler 0 as well, is stopped there, and
  leaves the default status 200.
\<close>

theorem handle_twice_repeats_counterexample:
  "handle_twice counting_chain 0 =
     Inr (\<lparr>req = new_Request,
           res = \<lparr>status = 404, headers = Map.empty, body = ''''\<rparr>, ext = 1\<rparr>,
          \<lparr>req = new_Request,
           res = \<lparr>status = 200, headers = Map.empty, body = ''''\<rparr>, ext = 2\<rparr>)
   \<and> traces_twice counting_chain 0 = ([0, 1], [0])
   \<and> \<not> repeats counting_chain 0"
  by (simp add: handle_twice_def traces_twice_def repeats_def counting_first counting_second
      counting_traces)

text \<open>
  C8. A freshly constructed request has method GET, path /, no header and an empty
  body; a freshly constructed response has status 200, which is in the range of the
  success codes, no header and an empty body.
\<close>

theorem fresh_defaults:
  "method new_Request = ''GET'' \<and> path new_Request = ''/''
   \<and> Request.headers new_Request = Map.empty \<and> Request.body new_Request = ''''
   \<and> status new_Response = 200
   \<and> 200 \<le> sint (status new_Response) \<and> sint (status new_Response) < 300
   \<and> Response.headers new_Response = Map.empty \<and> Response.body new_Response = ''''"
  by (simp add: new_Request_def new_Response_def)

text \<open>
  C9. \<open>execute\<close> never reads the vector outside its range: the subscript is undefined
  exactly where the guard has already returned, so no call of \<open>execute\<close>, at whatever
  index and however the handlers behave, ends in \<open>IndexOutOfRange\<close>. The continuation
  of the last handler is \<open>execute\<close> at the length of the vector, which returns at once
  and changes nothing.
\<close>

theorem execute_subscript_in_range:
  "execute c index w \<noteq> Inl IndexOutOfRange
   \<and> (subscript (middleware c) index = None \<longleftrightarrow> length (middleware c) \<le> index)
   \<and> execute c (length (middleware c)) w = Inr w"
  using execute_total [of c index w] by (auto simp: subscript_def execute_done)

text \<open>
  C10. A dispatch terminates. Each call of the continuation enters \<open>execute\<close> at
  \<open>index + 1\<close>, so the length of the vector minus the index decreases along every chain
  of nested calls: a bound of one more than that difference on the nesting depth is
  never reached, and the call returns a state.
\<close>

theorem execute_terminates_within_depth:
  assumes "length (middleware c) - index < d"
  shows "execute_bounded d c index w = execute c index w
       \<and> (\<exists>w'. execute_bounded d c index w = Inr w')"
  using assms execute_total [of c index w] by (simp add: execute_bounded_enough)

theorem execute_terminates_within_depth_witness:
  "length (middleware scenario_chain) - 0 < 4 \<and>
   execute_bounded 4 scenario_chain 0 (fresh []) = execute scenario_chain 0 (fresh []) \<and>
   execute_bounded 4 scenario_chain 0 (fresh []) =
     Inr \<lparr>req = new_Request,
          res = \<lparr>status = 404, headers = [''X'' \<mapsto> ''1''], body = ''''\<rparr>,
          ext = [''appendLog'']\<rparr>"
proof -
  have h: "length (middleware scenario_chain) - 0 < 4"
    by (simp add: example_defs)
  have r: "execute scenario_chain 0 (fresh []) =
     Inr \<lparr>req = new_Request,
          res = \<lparr>status = 404, headers = [''X'' \<mapsto> ''1''], body = ''''\<rparr>,
          ext = [''appendLog'']\<rparr>"
    by (simp add: example_defs execute_step execute_done)
  from execute_terminates_within_depth [OF h, of "fresh []"] h
  show ?thesis by (simp add: r)
qed

text \<open>The bound is the least one: with one activation less the recursion is cut off.\<close>

lemma execute_bounded_too_shallow:
  "execute_bounded 3 scenario_chain 0 (fresh []) = Inl DepthExceeded"
  by (simp add: example_defs subscript_def numeral_3_eq_3)

end
